theory Spec2Isabelle
  imports Complex_Main "HOL-Library.Multiset"
begin

section \<open>Arrays and the NumPy operations the script calls\<close>

text \<open>
  The script \<^verbatim>\<open>src/orbits/scratch.py\<close> is twenty lines of NumPy. Its arrays are
  modelled the way NumPy stores them: a shape and the elements in C (row-major) order.
  Numbers of type float64 are modelled by \<^typ>\<open>real\<close>: the statements below are about
  exact arithmetic, except those of the last section, which rounds every operation to
  float64 and evaluates the period axis that way.
\<close>

record 'a ndarray =
  nd_shape :: "nat list"
  nd_data :: "'a list"

datatype error = Raised string | ValueError | IndexError

text \<open>
  \<^verbatim>\<open>np.linspace(start, stop, num)\<close> with the default \<^verbatim>\<open>endpoint=True\<close>: the
  samples are \<^verbatim>\<open>arange(num) * step + start\<close> with \<^verbatim>\<open>step = (stop - start) / (num - 1)\<close>,
  and the last sample is overwritten by \<^verbatim>\<open>stop\<close> when there is more than one.
\<close>

definition linspace :: "real \<Rightarrow> real \<Rightarrow> nat \<Rightarrow> real list" where
  "linspace start stop num =
     (let dv = num - 1;
          delta = stop - start;
          y = map real [0..<num];
          y1 = (if 0 < dv then map (\<lambda>v. v * (delta / real dv)) y else map (\<lambda>v. v * delta) y);
          y2 = map (\<lambda>v. v + start) y1
      in if 1 < num then y2[num - 1 := stop] else y2)"

text \<open>
  \<^verbatim>\<open>np.meshgrid(x0, x1, ..., xn)\<close> with the default \<^verbatim>\<open>indexing='xy'\<close>, dense output.
  Every output array has the shape \<^verbatim>\<open>(len(x1), len(x0), len(x2), ..., len(xn))\<close>: the
  first two axes are exchanged. The output for \<^verbatim>\<open>xi\<close> varies along the axis that
  carries \<^verbatim>\<open>len(xi)\<close> and is constant along all others.

  \<open>broadcast_axis shp k x\<close> is the row-major element list of the array of shape \<open>shp\<close>
  whose entry at a multi-index is \<open>x\<close> at the \<open>k\<close>-th component of that index: every
  element of \<open>x\<close> is repeated once for each index of the axes after \<open>k\<close>, and the whole
  is repeated once for each index of the axes before \<open>k\<close>.
\<close>

definition broadcast_axis :: "nat list \<Rightarrow> nat \<Rightarrow> 'a list \<Rightarrow> 'a list" where
  "broadcast_axis shp k x =
     concat (replicate (prod_list (take k shp))
       (concat (map (replicate (prod_list (drop (Suc k) shp))) x)))"

definition xy_axis :: "nat \<Rightarrow> nat \<Rightarrow> nat" where
  "xy_axis ndim i = (if 1 < ndim \<and> i = 0 then 1 else if 1 < ndim \<and> i = 1 then 0 else i)"

definition meshgrid :: "'a list list \<Rightarrow> 'a ndarray list" where
  "meshgrid xi =
     (let ndim = length xi;
          shp = map (\<lambda>j. length (xi ! xy_axis ndim j)) [0..<ndim]
      in map (\<lambda>i. \<lparr>nd_shape = shp, nd_data = broadcast_axis shp (xy_axis ndim i) (xi ! i)\<rparr>)
           [0..<ndim])"

text \<open>\<^verbatim>\<open>x.flatten()\<close>: the elements in row-major order, as a one-dimensional array.\<close>

definition flatten :: "'a ndarray \<Rightarrow> 'a list" where
  "flatten x = nd_data x"

text \<open>\<^verbatim>\<open>np.empty((rows, cols))\<close>: a two-dimensional array whose elements are whatever
  the allocated memory holds; \<open>g\<close> is that content, by flat position.\<close>

definition np_empty :: "(nat \<Rightarrow> real) \<Rightarrow> nat \<Rightarrow> nat \<Rightarrow> real ndarray" where
  "np_empty g rows cols = \<lparr>nd_shape = [rows, cols], nd_data = map g [0..<rows * cols]\<rparr>"

text \<open>\<^verbatim>\<open>r[row, col]\<close> of a two-dimensional array.\<close>

definition index2 :: "'a ndarray \<Rightarrow> nat \<Rightarrow> nat \<Rightarrow> 'a" where
  "index2 r row col = nd_data r ! (row * (nd_shape r ! 1) + col)"

text \<open>
  \<^verbatim>\<open>r[:, i] = v\<close> for a two-dimensional \<open>r\<close> and a one-dimensional \<open>v\<close>: column \<open>i\<close>
  receives \<open>v\<close>. NumPy raises IndexError when \<open>i\<close> is not a column, broadcasts a \<open>v\<close> of
  length one over the column, and raises ValueError for every other length that is not
  the number of rows.
\<close>

definition set_column :: "real ndarray \<Rightarrow> nat \<Rightarrow> real list \<Rightarrow> error + real ndarray" where
  "set_column r i v =
     (let rows = nd_shape r ! 0; cols = nd_shape r ! 1 in
      if cols \<le> i then Inl IndexError
      else if length v = rows then
        Inr (r\<lparr>nd_data := map (\<lambda>k. if k mod cols = i then v ! (k div cols) else nd_data r ! k)
                             [0..<rows * cols]\<rparr>)
      else if length v = 1 then
        Inr (r\<lparr>nd_data := map (\<lambda>k. if k mod cols = i then v ! 0 else nd_data r ! k)
                             [0..<rows * cols]\<rparr>)
      else Inl ValueError)"

text \<open>\<^verbatim>\<open>r < c\<close>: the element-wise comparison with a scalar, of the same shape.\<close>

definition less_scalar :: "real ndarray \<Rightarrow> real \<Rightarrow> bool ndarray" where
  "less_scalar r c = \<lparr>nd_shape = nd_shape r, nd_data = map (\<lambda>x. x < c) (nd_data r)\<rparr>"

section \<open>The script\<close>

text \<open>
  The constants of the script keep their names, with a suffix where the name is a single
  letter: \<open>t_arr\<close> is \<^verbatim>\<open>t\<close>, \<open>a_arr\<close> is \<^verbatim>\<open>a\<close>, and so on for the six flattened
  parameter arrays; the six arguments of \<^verbatim>\<open>np.meshgrid\<close> are the \<open>_axis\<close> lists.
\<close>

definition t_arr :: "real list" where
  "t_arr = linspace (- 100) 100 1000"

definition t0_axis :: "real list" where
  "t0_axis = linspace (- 5.0) 5.0 2"

definition period_axis :: "real list" where
  "period_axis = map exp (linspace (ln 5.0) (ln 50.0) 3)"

definition a_axis :: "real list" where
  "a_axis = linspace 50.0 100.0 2"

definition e_axis :: "real list" where
  "e_axis = linspace 0.0 0.9 5"

definition omega_axis :: "real list" where
  "omega_axis = linspace (- pi) pi 3"

definition incl_axis :: "real list" where
  "incl_axis = map arccos (butlast (linspace 0 1 5))"

definition grids :: "real list list" where
  "grids = map flatten
     (meshgrid [t0_axis, period_axis, a_axis, e_axis, omega_axis, incl_axis])"

text \<open>The shape of the six arrays \<^verbatim>\<open>np.meshgrid\<close> returns here: the lengths of the
  period and t0 axes come first, in this order.\<close>

definition grid_shape :: "nat list" where
  "grid_shape = [3, 2, 2, 5, 3, 4]"

definition t0_arr :: "real list" where "t0_arr = grids ! 0"
definition period_arr :: "real list" where "period_arr = grids ! 1"
definition a_arr :: "real list" where "a_arr = grids ! 2"
definition e_arr :: "real list" where "e_arr = grids ! 3"
definition omega_arr :: "real list" where "omega_arr = grids ! 4"
definition incl_arr :: "real list" where "incl_arr = grids ! 5"

text \<open>The parameter tuple of grid point \<open>i\<close>, in the order the six arrays are unpacked.\<close>

definition grid_point :: "nat \<Rightarrow> real \<times> real \<times> real \<times> real \<times> real \<times> real" where
  "grid_point i = (t0_arr ! i, period_arr ! i, a_arr ! i, e_arr ! i, omega_arr ! i, incl_arr ! i)"

text \<open>
  The external routine \<^verbatim>\<open>_rsky._rsky\<close> is not part of the script: it is a parameter. It
  receives the time samples, six orbital elements and two integers, and either raises
  or returns a one-dimensional array.
\<close>

type_synonym rsky =
  "real list \<Rightarrow> real \<Rightarrow> real \<Rightarrow> real \<Rightarrow> real \<Rightarrow> real \<Rightarrow> real \<Rightarrow> int \<Rightarrow> int \<Rightarrow> error + real list"

text \<open>The call of line 17, for grid point \<open>i\<close>.\<close>

definition rsky_call :: "rsky \<Rightarrow> nat \<Rightarrow> error + real list" where
  "rsky_call rsky i =
     rsky t_arr (t0_arr ! i) (period_arr ! i) (a_arr ! i) (incl_arr ! i) (e_arr ! i) (omega_arr ! i) 1 1"

text \<open>The body of the loop: the call, then the assignment to column \<open>i\<close>.\<close>

definition sweep_step :: "rsky \<Rightarrow> nat \<Rightarrow> real ndarray \<Rightarrow> error + real ndarray" where
  "sweep_step rsky i r =
     (case rsky_call rsky i of
        Inl err \<Rightarrow> Inl err
      | Inr v \<Rightarrow> set_column r i v)"

text \<open>
  The loop over a list of grid points (the script's is \<^verbatim>\<open>range(len(t0))\<close>). The state
  is the table together with the log of the grid points for which the routine has been
  called, oldest first; an error ends the loop at once.
\<close>

fun sweep :: "rsky \<Rightarrow> nat list \<Rightarrow> nat list \<times> real ndarray \<Rightarrow> nat list \<times> (error + real ndarray)" where
  "sweep rsky [] (calls, r) = (calls, Inr r)"
| "sweep rsky (i # rest) (calls, r) =
     (case sweep_step rsky i r of
        Inl err \<Rightarrow> (calls @ [i], Inl err)
      | Inr r' \<Rightarrow> sweep rsky rest (calls @ [i], r'))"

text \<open>
  The whole script: the log of calls, and either the error that ended the run or the
  result table \<^verbatim>\<open>r_batman\<close> with the mask \<^verbatim>\<open>m\<close>.
\<close>

definition script :: "rsky \<Rightarrow> (nat \<Rightarrow> real) \<Rightarrow> nat list \<times> (error + real ndarray \<times> bool ndarray)" where
  "script rsky g =
     (case sweep rsky [0..<length t0_arr] ([], np_empty g (length t_arr) (length t0_arr)) of
        (calls, Inl err) \<Rightarrow> (calls, Inl err)
      | (calls, Inr r_batman) \<Rightarrow> (calls, Inr (r_batman, less_scalar r_batman 100.0)))"

section \<open>The grid in the words of the specification\<close>

text \<open>
  The cartesian product of six lists in row-major order: the first list varies slowest,
  the last fastest.
\<close>

definition cartesian6 ::
  "'a list \<Rightarrow> 'b list \<Rightarrow> 'c list \<Rightarrow> 'd list \<Rightarrow> 'e list \<Rightarrow> 'f list \<Rightarrow> ('a \<times> 'b \<times> 'c \<times> 'd \<times> 'e \<times> 'f) list" where
  "cartesian6 x1 x2 x3 x4 x5 x6 =
     concat (map (\<lambda>v1. concat (map (\<lambda>v2. concat (map (\<lambda>v3. concat (map (\<lambda>v4.
       concat (map (\<lambda>v5. map (\<lambda>v6. (v1, v2, v3, v4, v5, v6)) x6) x5)) x4)) x3)) x2)) x1)"

section \<open>What one iteration of the loop does\<close>

text \<open>
  Three functions read off \<open>sweep_step\<close> and \<open>set_column\<close>, for a table of \<open>rows\<close> rows.
  The iteration for grid point \<open>i\<close> succeeds when the routine returns an array that the
  column can take: one of length \<open>rows\<close>, or one of length one, which NumPy broadcasts.
  Otherwise it ends with the routine's own error, or with the ValueError of the
  assignment. When it succeeds, \<open>entry\<close> is what it stores in a row of column \<open>i\<close>.
\<close>

definition step_ok :: "rsky \<Rightarrow> nat \<Rightarrow> nat \<Rightarrow> bool" where
  "step_ok rsky rows i =
     (case rsky_call rsky i of Inl err \<Rightarrow> False | Inr v \<Rightarrow> length v = rows \<or> length v = 1)"

definition step_error :: "rsky \<Rightarrow> nat \<Rightarrow> error" where
  "step_error rsky i = (case rsky_call rsky i of Inl err \<Rightarrow> err | Inr v \<Rightarrow> ValueError)"

definition entry :: "rsky \<Rightarrow> nat \<Rightarrow> nat \<Rightarrow> nat \<Rightarrow> real" where
  "entry rsky rows i row =
     (case rsky_call rsky i of
        Inl err \<Rightarrow> 0
      | Inr v \<Rightarrow> if length v = rows then v ! row else v ! 0)"

section \<open>Synthetic routines\<close>

text \<open>
  Stand-ins for the external routine, used to instantiate the theorems below: one that
  evaluates a given closed form at every time sample, and one that raises for an
  eccentricity of 0.9 or more and evaluates the closed form otherwise.
\<close>

definition rsky_pointwise ::
  "(real \<Rightarrow> real \<Rightarrow> real \<Rightarrow> real \<Rightarrow> real \<Rightarrow> real \<Rightarrow> real \<Rightarrow> real) \<Rightarrow> rsky" where
  "rsky_pointwise f ts tc per sma inc ecc w transittype nthreads =
     Inr (map (\<lambda>x. f x tc per sma inc ecc w) ts)"

definition rsky_bounded_ecc ::
  "(real \<Rightarrow> real \<Rightarrow> real \<Rightarrow> real \<Rightarrow> real \<Rightarrow> real \<Rightarrow> real \<Rightarrow> real) \<Rightarrow> rsky" where
  "rsky_bounded_ecc f ts tc per sma inc ecc w transittype nthreads =
     (if 0.9 \<le> ecc then Inl (Raised ''eccentricity'')
      else Inr (map (\<lambda>x. f x tc per sma inc ecc w) ts))"

definition toy_separation :: "real \<Rightarrow> real \<Rightarrow> real \<Rightarrow> real \<Rightarrow> real \<Rightarrow> real \<Rightarrow> real \<Rightarrow> real" where
  "toy_separation x tc per sma inc ecc w = sma * (1 + ecc) + \<bar>x - tc\<bar>"

definition flat_position :: "nat \<Rightarrow> real" where
  "flat_position k = real k"

text \<open>Exchanging the first two components of a tuple.\<close>

definition swap12 :: "'a \<times> 'b \<times> 'c \<Rightarrow> 'b \<times> 'a \<times> 'c" where
  "swap12 p = (fst (snd p), fst p, snd (snd p))"

section \<open>Float64 arithmetic\<close>












section \<open>Lists built by repetition\<close>

lemma length_linspace: "length (linspace start stop num) = num"
  by (simp add: linspace_def Let_def)

lemma length_concat_replicate: "length (concat (replicate n ys)) = n * length ys"
  by (induction n) auto

lemma nth_concat_replicate:
  "i < n * length ys \<Longrightarrow> concat (replicate n ys) ! i = ys ! (i mod length ys)"
proof (induction n arbitrary: i)
  case 0
  then show ?case by simp
next
  case (Suc n)
  show ?case
  proof (cases "i < length ys")
    case True
    then show ?thesis by (simp add: nth_append)
  next
    case False
    then have "i - length ys < n * length ys" using Suc.prems by simp
    from Suc.IH[OF this] False show ?thesis
      by (simp add: nth_append le_mod_geq)
  qed
qed

lemma length_concat_map_replicate: "length (concat (map (replicate m) x)) = length x * m"
  by (induction x) auto

lemma nth_concat_map_replicate:
  "i < length x * m \<Longrightarrow> concat (map (replicate m) x) ! i = x ! (i div m)"
proof (induction x arbitrary: i)
  case Nil
  then show ?case by simp
next
  case (Cons a x)
  have m: "0 < m" using Cons.prems by (cases m) auto
  show ?case
  proof (cases "i < m")
    case True
    then show ?thesis by (simp add: nth_append)
  next
    case False
    then have lt: "i - m < length x * m" using Cons.prems by simp
    have "i div m = Suc ((i - m) div m)" using False m by (simp add: le_div_geq)
    with Cons.IH[OF lt] False show ?thesis
      by (simp add: nth_append)
  qed
qed

lemma mod_mult_div_nat:
  fixes i m n :: nat
  assumes "0 < m"
  shows "i mod (m * n) div m = i div m mod n"
proof -
  have "i mod (m * n) = m * (i div m mod n) + i mod m"
    by (rule mod_mult2_eq)
  then have "i mod (m * n) div m = (m * (i div m mod n) + i mod m) div m"
    by simp
  also have "\<dots> = i div m mod n" using assms by simp
  finally show ?thesis .
qed

lemma length_broadcast_axis:
  "length (broadcast_axis shp k x) =
     prod_list (take k shp) * (length x * prod_list (drop (Suc k) shp))"
  by (simp add: broadcast_axis_def length_concat_replicate length_concat_map_replicate)

lemma nth_broadcast_axis:
  assumes "i < prod_list (take k shp) * (length x * prod_list (drop (Suc k) shp))"
  shows "broadcast_axis shp k x ! i = x ! (i div prod_list (drop (Suc k) shp) mod length x)"
proof -
  let ?m = "prod_list (drop (Suc k) shp)"
  let ?ys = "concat (map (replicate ?m) x)"
  have len: "length ?ys = length x * ?m" by (rule length_concat_map_replicate)
  have pos: "0 < length x * ?m" using assms by (cases "length x * ?m") auto
  have "broadcast_axis shp k x ! i = ?ys ! (i mod (length x * ?m))"
    unfolding broadcast_axis_def using assms nth_concat_replicate[of i _ ?ys] len by simp
  also have "\<dots> = x ! ((i mod (length x * ?m)) div ?m)"
    using pos by (intro nth_concat_map_replicate) simp
  also have "(i mod (length x * ?m)) div ?m = i div ?m mod length x"
  proof -
    have "0 < ?m" using pos by (cases ?m) auto
    then show ?thesis
      using mod_mult_div_nat [of ?m i "length x"] by (simp add: mult.commute)
  qed
  finally show ?thesis .
qed

lemma nth_concat_map_uniform:
  assumes "\<And>v. v \<in> set xs \<Longrightarrow> length (f v) = m" and "i < length xs * m"
  shows "concat (map f xs) ! i = f (xs ! (i div m)) ! (i mod m)"
  using assms
proof (induction xs arbitrary: i)
  case Nil
  then show ?case by simp
next
  case (Cons a xs)
  have m: "0 < m" using Cons.prems(2) by (cases m) auto
  have la: "length (f a) = m" using Cons.prems(1) by simp
  show ?case
  proof (cases "i < m")
    case True
    then show ?thesis using la by (simp add: nth_append)
  next
    case False
    then have lt: "i - m < length xs * m" using Cons.prems(2) by simp
    have d: "i div m = Suc ((i - m) div m)" using False m by (simp add: le_div_geq)
    have md: "i mod m = (i - m) mod m" using False by (simp add: le_mod_geq)
    have "concat (map f xs) ! (i - m) = f (xs ! ((i - m) div m)) ! ((i - m) mod m)"
      using Cons.prems(1) lt by (intro Cons.IH) auto
    with False la d md show ?thesis
      by (simp add: nth_append)
  qed
qed

lemma length_concat_map_uniform:
  assumes "\<And>v. v \<in> set xs \<Longrightarrow> length (f v) = m"
  shows "length (concat (map f xs)) = length xs * m"
  using assms by (induction xs) auto

section \<open>The flattened parameter arrays\<close>

lemma axis_lengths:
  "length t0_axis = 2" "length period_axis = 3" "length a_axis = 2"
  "length e_axis = 5" "length omega_axis = 3" "length incl_axis = 4"
  by (simp_all add: t0_axis_def period_axis_def a_axis_def e_axis_def omega_axis_def
      incl_axis_def length_linspace)

lemma upt_6: "[0..<6] = [0, 1, 2, 3, 4, 5]"
  by (simp add: upt_rec)

lemma meshgrid6:
  "meshgrid [x0, x1, x2, x3, x4, x5] =
     (let shp = [length x1, length x0, length x2, length x3, length x4, length x5] in
      [\<lparr>nd_shape = shp, nd_data = broadcast_axis shp 1 x0\<rparr>,
       \<lparr>nd_shape = shp, nd_data = broadcast_axis shp 0 x1\<rparr>,
       \<lparr>nd_shape = shp, nd_data = broadcast_axis shp 2 x2\<rparr>,
       \<lparr>nd_shape = shp, nd_data = broadcast_axis shp 3 x3\<rparr>,
       \<lparr>nd_shape = shp, nd_data = broadcast_axis shp 4 x4\<rparr>,
       \<lparr>nd_shape = shp, nd_data = broadcast_axis shp 5 x5\<rparr>])"
  by (simp add: meshgrid_def upt_6 xy_axis_def Let_def eval_nat_numeral)

lemma arrays_broadcast:
  "t0_arr = broadcast_axis grid_shape 1 t0_axis"
  "period_arr = broadcast_axis grid_shape 0 period_axis"
  "a_arr = broadcast_axis grid_shape 2 a_axis"
  "e_arr = broadcast_axis grid_shape 3 e_axis"
  "omega_arr = broadcast_axis grid_shape 4 omega_axis"
  "incl_arr = broadcast_axis grid_shape 5 incl_axis"
  by (simp_all add: t0_arr_def period_arr_def a_arr_def e_arr_def omega_arr_def incl_arr_def
      grids_def meshgrid6 Let_def flatten_def axis_lengths grid_shape_def)

lemma array_lengths:
  "length t0_arr = 720" "length period_arr = 720" "length a_arr = 720"
  "length e_arr = 720" "length omega_arr = 720" "length incl_arr = 720"
  by (simp_all add: arrays_broadcast length_broadcast_axis axis_lengths grid_shape_def)

lemma array_nth:
  assumes "i < 720"
  shows "t0_arr ! i = t0_axis ! (i div 120 mod 2)"
    and "period_arr ! i = period_axis ! (i div 240)"
    and "a_arr ! i = a_axis ! (i div 60 mod 2)"
    and "e_arr ! i = e_axis ! (i div 12 mod 5)"
    and "omega_arr ! i = omega_axis ! (i div 4 mod 3)"
    and "incl_arr ! i = incl_axis ! (i mod 4)"
  using assms
  by (simp_all add: arrays_broadcast nth_broadcast_axis axis_lengths grid_shape_def)

section \<open>The values on the six axes\<close>

lemma upt_small:
  "[0..<2] = [0, 1]" "[0..<3] = [0, 1, 2]" "[0..<5] = [0, 1, 2, 3, 4]"
  by (simp_all add: upt_rec)

lemma t0_axis_values: "t0_axis = [- 5, 5]"
  by (simp add: t0_axis_def linspace_def Let_def upt_small)

lemma a_axis_values: "a_axis = [50, 100]"
  by (simp add: a_axis_def linspace_def Let_def upt_small)

lemma e_axis_values: "e_axis = [0, 9 / 40, 9 / 20, 27 / 40, 9 / 10]"
  by (simp add: e_axis_def linspace_def Let_def upt_small)

lemma omega_axis_values: "omega_axis = [- pi, 0, pi]"
  by (simp add: omega_axis_def linspace_def Let_def upt_small)

lemma period_axis_values: "period_axis = [5, exp ((ln 5 + ln 50) / 2), 50]"
  by (simp add: period_axis_def linspace_def Let_def upt_small field_simps)

lemma incl_axis_values: "incl_axis = [arccos 0, arccos (1 / 4), arccos (1 / 2), arccos (3 / 4)]"
  by (simp add: incl_axis_def linspace_def Let_def upt_small)

section \<open>The cartesian product by index\<close>

lemma length_cartesian6:
  "length (cartesian6 x1 x2 x3 x4 x5 x6) =
     length x1 * (length x2 * (length x3 * (length x4 * (length x5 * length x6))))"
  by (simp add: cartesian6_def length_concat_map_uniform
      [where m = "length x2 * (length x3 * (length x4 * (length x5 * length x6)))"]
      length_concat_map_uniform [where m = "length x3 * (length x4 * (length x5 * length x6))"]
      length_concat_map_uniform [where m = "length x4 * (length x5 * length x6)"]
      length_concat_map_uniform [where m = "length x5 * length x6"]
      length_concat_map_uniform [where m = "length x6"])

lemma nth_cartesian6:
  fixes x1 :: "'a list" and x2 :: "'b list" and x3 :: "'c list"
    and x4 :: "'d list" and x5 :: "'e list" and x6 :: "'f list"
  defines "m5 \<equiv> length x6"
  defines "m4 \<equiv> length x5 * m5"
  defines "m3 \<equiv> length x4 * m4"
  defines "m2 \<equiv> length x3 * m3"
  defines "m1 \<equiv> length x2 * m2"
  assumes i: "i < length x1 * m1"
  shows "cartesian6 x1 x2 x3 x4 x5 x6 ! i =
     (x1 ! (i div m1),
      x2 ! (i mod m1 div m2),
      x3 ! (i mod m1 mod m2 div m3),
      x4 ! (i mod m1 mod m2 mod m3 div m4),
      x5 ! (i mod m1 mod m2 mod m3 mod m4 div m5),
      x6 ! (i mod m1 mod m2 mod m3 mod m4 mod m5))"
proof -
  define f5 where "f5 = (\<lambda>(v1::'a) (v2::'b) (v3::'c) (v4::'d) (v5::'e). map (\<lambda>v6. (v1, v2, v3, v4, v5, v6)) x6)"
  define f4 where "f4 = (\<lambda>v1 v2 v3 v4. concat (map (f5 v1 v2 v3 v4) x5))"
  define f3 where "f3 = (\<lambda>v1 v2 v3. concat (map (f4 v1 v2 v3) x4))"
  define f2 where "f2 = (\<lambda>v1 v2. concat (map (f3 v1 v2) x3))"
  define f1 where "f1 = (\<lambda>v1. concat (map (f2 v1) x2))"
  have c: "cartesian6 x1 x2 x3 x4 x5 x6 = concat (map f1 x1)"
    by (simp add: cartesian6_def f1_def f2_def f3_def f4_def f5_def)
  have l5: "length (f5 v1 v2 v3 v4 v5) = m5" for v1 v2 v3 v4 v5
    by (simp add: f5_def m5_def)
  have l4: "length (f4 v1 v2 v3 v4) = m4" for v1 v2 v3 v4
    unfolding f4_def m4_def by (rule length_concat_map_uniform) (rule l5)
  have l3: "length (f3 v1 v2 v3) = m3" for v1 v2 v3
    unfolding f3_def m3_def by (rule length_concat_map_uniform) (rule l4)
  have l2: "length (f2 v1 v2) = m2" for v1 v2
    unfolding f2_def m2_def by (rule length_concat_map_uniform) (rule l3)
  have l1: "length (f1 v1) = m1" for v1
    unfolding f1_def m1_def by (rule length_concat_map_uniform) (rule l2)
  define j1 where "j1 = i mod m1"
  define j2 where "j2 = j1 mod m2"
  define j3 where "j3 = j2 mod m3"
  define j4 where "j4 = j3 mod m4"
  define j5 where "j5 = j4 mod m5"
  have p1: "0 < m1" using i by (cases m1) auto
  then have b1: "j1 < length x2 * m2" by (simp add: j1_def m1_def)
  then have p2: "0 < m2" by (cases m2) auto
  then have b2: "j2 < length x3 * m3" by (simp add: j2_def m2_def)
  then have p3: "0 < m3" by (cases m3) auto
  then have b3: "j3 < length x4 * m4" by (simp add: j3_def m3_def)
  then have p4: "0 < m4" by (cases m4) auto
  then have b4: "j4 < length x5 * m5" by (simp add: j4_def m4_def)
  then have p5: "0 < m5" by (cases m5) auto
  then have b5: "j5 < length x6" by (simp add: j5_def m5_def)
  have "concat (map f1 x1) ! i = f1 (x1 ! (i div m1)) ! j1"
    unfolding j1_def using l1 i by (rule nth_concat_map_uniform)
  also have "\<dots> = f2 (x1 ! (i div m1)) (x2 ! (j1 div m2)) ! j2"
    unfolding f1_def j2_def using l2 b1 by (rule nth_concat_map_uniform)
  also have "\<dots> = f3 (x1 ! (i div m1)) (x2 ! (j1 div m2)) (x3 ! (j2 div m3)) ! j3"
    unfolding f2_def j3_def using l3 b2 by (rule nth_concat_map_uniform)
  also have "\<dots> = f4 (x1 ! (i div m1)) (x2 ! (j1 div m2)) (x3 ! (j2 div m3)) (x4 ! (j3 div m4)) ! j4"
    unfolding f3_def j4_def using l4 b3 by (rule nth_concat_map_uniform)
  also have "\<dots> = f5 (x1 ! (i div m1)) (x2 ! (j1 div m2)) (x3 ! (j2 div m3)) (x4 ! (j3 div m4))
      (x5 ! (j4 div m5)) ! j5"
    unfolding f4_def j5_def using l5 b4 by (rule nth_concat_map_uniform)
  also have "\<dots> = (x1 ! (i div m1), x2 ! (j1 div m2), x3 ! (j2 div m3), x4 ! (j3 div m4),
      x5 ! (j4 div m5), x6 ! j5)"
    using b5 by (simp add: f5_def)
  finally show ?thesis
    unfolding c j1_def j2_def j3_def j4_def j5_def .
qed

section \<open>Grid points and products by index\<close>

lemma period_mid_bounds:
  "(5::real) < exp ((ln 5 + ln 50) / 2)" "exp ((ln 5 + ln 50) / 2) < (50::real)"
proof -
  have l: "ln (5::real) < ln 50" by simp
  have "exp (ln (5::real)) < exp ((ln 5 + ln 50) / 2)"
    using l by (subst exp_less_cancel_iff) simp
  then show "(5::real) < exp ((ln 5 + ln 50) / 2)" by simp
  have "exp ((ln 5 + ln 50) / 2) < exp (ln (50::real))"
    using l by (subst exp_less_cancel_iff) simp
  then show "exp ((ln 5 + ln 50) / 2) < (50::real)" by simp
qed

lemma incl_axis_order:
  "arccos (3 / 4) < arccos (1 / 2)" "arccos (1 / 2) < arccos (1 / 4)" "arccos (1 / 4) < arccos 0"
  "0 < arccos (3 / 4)"
proof -
  show "arccos (3 / 4) < arccos (1 / 2)" by (rule arccos_less_arccos) simp_all
  show "arccos (1 / 2) < arccos (1 / 4)" by (rule arccos_less_arccos) simp_all
  show "arccos (1 / 4) < arccos 0" by (rule arccos_less_arccos) simp_all
  have "arccos 1 < arccos (3 / 4)" by (rule arccos_less_arccos) simp_all
  then show "0 < arccos (3 / 4)" by simp
qed

lemma axes_distinct:
  "distinct t0_axis" "distinct period_axis" "distinct a_axis" "distinct e_axis"
  "distinct omega_axis" "distinct incl_axis"
proof -
  show "distinct t0_axis" by (simp add: t0_axis_values)
  show "distinct period_axis" using period_mid_bounds by (simp add: period_axis_values)
  show "distinct a_axis" by (simp add: a_axis_values)
  show "distinct e_axis" by (simp add: e_axis_values)
  show "distinct omega_axis" using pi_gt_zero by (simp add: omega_axis_values)
  show "distinct incl_axis" using incl_axis_order by (simp add: incl_axis_values del: arccos_0 arccos_one_half)
qed

text \<open>The grid point at a flat index, by the position on each axis.\<close>

lemma grid_point_nth:
  assumes "i < 720"
  shows "grid_point i =
    (t0_axis ! (i div 120 mod 2), period_axis ! (i div 240), a_axis ! (i div 60 mod 2),
     e_axis ! (i div 12 mod 5), omega_axis ! (i div 4 mod 3), incl_axis ! (i mod 4))"
  using assms by (simp add: grid_point_def array_nth)

text \<open>The product with the period axis first, by index.\<close>

lemma period_major_nth:
  assumes "i < 720"
  shows "cartesian6 period_axis t0_axis a_axis e_axis omega_axis incl_axis ! i =
    (period_axis ! (i div 240), t0_axis ! (i div 120 mod 2), a_axis ! (i div 60 mod 2),
     e_axis ! (i div 12 mod 5), omega_axis ! (i div 4 mod 3), incl_axis ! (i mod 4))"
proof -
  have a: "i mod 240 div 120 = i div 120 mod 2"
    using mod_mult_div_nat [of 120 i 2] by simp
  have b: "i mod 240 mod 120 div 60 = i div 60 mod 2"
    using mod_mult_div_nat [of 60 i 2] by (simp add: mod_mod_cancel)
  have c: "i mod 240 mod 120 mod 60 div 12 = i div 12 mod 5"
    using mod_mult_div_nat [of 12 i 5] by (simp add: mod_mod_cancel)
  have d: "i mod 240 mod 120 mod 60 mod 12 div 4 = i div 4 mod 3"
    using mod_mult_div_nat [of 4 i 3] by (simp add: mod_mod_cancel)
  have e: "i mod 240 mod 120 mod 60 mod 12 mod 4 = i mod 4"
    by (simp add: mod_mod_cancel)
  show ?thesis
    using assms by (simp add: nth_cartesian6 axis_lengths a b c d e)
qed

text \<open>The product in the order of the specification, by index.\<close>

lemma t0_major_nth:
  assumes "i < 720"
  shows "cartesian6 t0_axis period_axis a_axis e_axis omega_axis incl_axis ! i =
    (t0_axis ! (i div 360), period_axis ! (i div 120 mod 3), a_axis ! (i div 60 mod 2),
     e_axis ! (i div 12 mod 5), omega_axis ! (i div 4 mod 3), incl_axis ! (i mod 4))"
proof -
  have a: "i mod 360 div 120 = i div 120 mod 3"
    using mod_mult_div_nat [of 120 i 3] by simp
  have b: "i mod 360 mod 120 div 60 = i div 60 mod 2"
    using mod_mult_div_nat [of 60 i 2] by (simp add: mod_mod_cancel)
  have c: "i mod 360 mod 120 mod 60 div 12 = i div 12 mod 5"
    using mod_mult_div_nat [of 12 i 5] by (simp add: mod_mod_cancel)
  have d: "i mod 360 mod 120 mod 60 mod 12 div 4 = i div 4 mod 3"
    using mod_mult_div_nat [of 4 i 3] by (simp add: mod_mod_cancel)
  have e: "i mod 360 mod 120 mod 60 mod 12 mod 4 = i mod 4"
    by (simp add: mod_mod_cancel)
  show ?thesis
    using assms by (simp add: nth_cartesian6 axis_lengths a b c d e)
qed

section \<open>Coverage of the product\<close>

lemma cartesian6_product:
  "cartesian6 x1 x2 x3 x4 x5 x6 =
     List.product x1 (List.product x2 (List.product x3 (List.product x4 (List.product x5 x6))))"
  by (simp add: cartesian6_def product_concat_map map_concat o_def)

lemma distinct_cartesian6:
  "distinct x1 \<Longrightarrow> distinct x2 \<Longrightarrow> distinct x3 \<Longrightarrow> distinct x4 \<Longrightarrow> distinct x5 \<Longrightarrow>
   distinct x6 \<Longrightarrow> distinct (cartesian6 x1 x2 x3 x4 x5 x6)"
  by (simp add: cartesian6_product distinct_product)

lemma set_cartesian6:
  "set (cartesian6 x1 x2 x3 x4 x5 x6) =
     set x1 \<times> set x2 \<times> set x3 \<times> set x4 \<times> set x5 \<times> set x6"
  by (simp add: cartesian6_product)

lemma inj_swap12: "inj swap12"
  by (auto simp: inj_on_def swap12_def prod_eq_iff)

lemma grid_points_upto:
  assumes "n = 720"
  shows "map grid_point [0..<n] =
     map swap12 (cartesian6 period_axis t0_axis a_axis e_axis omega_axis incl_axis)"
proof (rule nth_equalityI)
  show "length (map grid_point [0..<n]) =
    length (map swap12 (cartesian6 period_axis t0_axis a_axis e_axis omega_axis incl_axis))"
    using assms by (simp add: length_cartesian6 axis_lengths)
next
  fix i assume "i < length (map grid_point [0..<n])"
  then have i: "i < 720" using assms by simp
  then have "i < length (cartesian6 period_axis t0_axis a_axis e_axis omega_axis incl_axis)"
    by (simp add: length_cartesian6 axis_lengths)
  then show "map grid_point [0..<n] ! i =
    map swap12 (cartesian6 period_axis t0_axis a_axis e_axis omega_axis incl_axis) ! i"
    using i assms by (simp add: grid_point_nth period_major_nth swap12_def)
qed

lemma distinct_grid_points_upto:
  assumes "n = 720"
  shows "distinct (map grid_point [0..<n])"
  unfolding grid_points_upto [OF assms]
  by (simp add: distinct_map distinct_cartesian6 axes_distinct inj_on_subset [OF inj_swap12])

lemma set_grid_points_upto:
  assumes "n = 720"
  shows "set (map grid_point [0..<n]) =
     set (cartesian6 t0_axis period_axis a_axis e_axis omega_axis incl_axis)"
  unfolding grid_points_upto [OF assms] set_cartesian6 set_map
  by (auto simp: swap12_def image_iff)

section \<open>The parameter grid\<close>

text \<open>
  C6. Each of the six flattened parameter arrays has exactly 720 elements, and 720 is the
  product 2 * 3 * 2 * 5 * 3 * 4 of the numbers of values on the six axes.
\<close>

theorem flattened_lengths:
  "length t0_arr = 720 \<and> length period_arr = 720 \<and> length a_arr = 720 \<and>
   length e_arr = 720 \<and> length omega_arr = 720 \<and> length incl_arr = 720 \<and>
   map length [t0_axis, period_axis, a_axis, e_axis, omega_axis, incl_axis] = [2, 3, 2, 5, 3, 4] \<and>
   prod_list (map length [t0_axis, period_axis, a_axis, e_axis, omega_axis, incl_axis]) = 720"
  by (simp add: array_lengths axis_lengths)

text \<open>
  C1, as the specification states it: grid point \<open>i\<close> is the \<open>i\<close>-th tuple of the product
  taken with t0 as the slowest axis. It fails at \<open>i = 120\<close>: the script's grid point has
  t0 = 5 and period = 5, the product's tuple has t0 = -5 and the middle period.
\<close>

theorem grid_point_t0_major_counterexample:
  "grid_point 120 \<noteq> cartesian6 t0_axis period_axis a_axis e_axis omega_axis incl_axis ! 120"
proof -
  have "fst (grid_point 120) = 5"
    by (simp add: grid_point_nth t0_axis_values)
  moreover have "fst (cartesian6 t0_axis period_axis a_axis e_axis omega_axis incl_axis ! 120) =
      t0_axis ! 0"
    by (simp add: t0_major_nth)
  then have "fst (cartesian6 t0_axis period_axis a_axis e_axis omega_axis incl_axis ! 120) = - 5"
    by (simp add: t0_axis_values)
  ultimately show ?thesis by auto
qed

text \<open>
  C1, amended: for every \<open>i < 720\<close>, the tuple
  \<open>(t0[i], period[i], a[i], e[i], omega[i], incl[i])\<close> is the \<open>i\<close>-th tuple of the product
  taken in row-major order with the axis order period, t0, a, e, omega, incl (the period
  axis varies slowest), with its first two components exchanged back.
\<close>

theorem grid_point_period_major:
  "\<forall>i<720. grid_point i =
     swap12 (cartesian6 period_axis t0_axis a_axis e_axis omega_axis incl_axis ! i)"
  by (simp add: grid_point_nth period_major_nth swap12_def)

theorem grid_point_period_major_witness:
  "grid_point 120 =
     swap12 (cartesian6 period_axis t0_axis a_axis e_axis omega_axis incl_axis ! 120) \<and>
   swap12 (cartesian6 period_axis t0_axis a_axis e_axis omega_axis incl_axis ! 120) =
     (5, 5, 50, 0, - pi, pi / 2)"
proof -
  have "(120::nat) < 720" by simp
  with grid_point_period_major
  have "grid_point 120 =
     swap12 (cartesian6 period_axis t0_axis a_axis e_axis omega_axis incl_axis ! 120)"
    by blast
  moreover have "swap12 (cartesian6 period_axis t0_axis a_axis e_axis omega_axis incl_axis ! 120) =
     (t0_axis ! 1, period_axis ! 0, a_axis ! 0, e_axis ! 0, omega_axis ! 0, incl_axis ! 0)"
    by (simp add: period_major_nth swap12_def)
  then have "swap12 (cartesian6 period_axis t0_axis a_axis e_axis omega_axis incl_axis ! 120) =
     (5, 5, 50, 0, - pi, pi / 2)"
    by (simp add: t0_axis_values period_axis_values a_axis_values
        e_axis_values omega_axis_values incl_axis_values)
  ultimately show ?thesis by simp
qed

text \<open>
  C8. The 720 grid points are, as a multiset, the tuples of the cartesian product of the
  six axes, and no grid point occurs twice: every combination is covered exactly once,
  whatever the order of flattening.
\<close>

theorem grid_covers_product_once:
  "mset (map grid_point [0..<720]) =
     mset (cartesian6 t0_axis period_axis a_axis e_axis omega_axis incl_axis) \<and>
   distinct (map grid_point [0..<720])"
proof -
  have d: "distinct (map grid_point [0..<720])"
    by (rule distinct_grid_points_upto) (rule refl)
  have s: "set (map grid_point [0..<720]) =
     set (cartesian6 t0_axis period_axis a_axis e_axis omega_axis incl_axis)"
    by (rule set_grid_points_upto) (rule refl)
  have "distinct (cartesian6 t0_axis period_axis a_axis e_axis omega_axis incl_axis)"
    by (intro distinct_cartesian6 axes_distinct)
  with d s have "mset (map grid_point [0..<720]) =
     mset (cartesian6 t0_axis period_axis a_axis e_axis omega_axis incl_axis)"
    using set_eq_iff_mset_eq_distinct by blast
  with d show ?thesis by (rule conjI [rotated])
qed

section \<open>The loop\<close>

lemma set_column_success:
  assumes "nd_shape r = [rows, cols]" and "i < cols" and "length v = rows \<or> length v = 1"
  shows "\<exists>r'. set_column r i v = Inr r' \<and> nd_shape r' = [rows, cols] \<and>
      length (nd_data r') = rows * cols \<and>
      (\<forall>k<rows * cols. nd_data r' ! k =
         (if k mod cols = i then (if length v = rows then v ! (k div cols) else v ! 0)
          else nd_data r ! k))"
  using assms by (auto simp: set_column_def Let_def)

lemma set_column_failure:
  assumes "nd_shape r = [rows, cols]" and "i < cols" and "\<not> (length v = rows \<or> length v = 1)"
  shows "set_column r i v = Inl ValueError"
  using assms by (simp add: set_column_def Let_def)

lemma step_success:
  assumes "nd_shape r = [rows, cols]" and "i < cols" and "step_ok rsky rows i"
  shows "\<exists>r'. sweep_step rsky i r = Inr r' \<and> nd_shape r' = [rows, cols] \<and>
      length (nd_data r') = rows * cols \<and>
      (\<forall>k<rows * cols. nd_data r' ! k =
         (if k mod cols = i then entry rsky rows i (k div cols) else nd_data r ! k))"
proof (cases "rsky_call rsky i")
  case (Inl err)
  with assms(3) show ?thesis by (simp add: step_ok_def)
next
  case (Inr v)
  with assms(3) have "length v = rows \<or> length v = 1" by (simp add: step_ok_def)
  then have c: "\<exists>r'. set_column r i v = Inr r' \<and> nd_shape r' = [rows, cols] \<and>
      length (nd_data r') = rows * cols \<and>
      (\<forall>k<rows * cols. nd_data r' ! k =
         (if k mod cols = i then (if length v = rows then v ! (k div cols) else v ! 0)
          else nd_data r ! k))"
    by (rule set_column_success [OF assms(1,2)])
  have e: "entry rsky rows i row = (if length v = rows then v ! row else v ! 0)" for row
    using Inr by (simp add: entry_def)
  have s: "sweep_step rsky i r = set_column r i v"
    using Inr by (simp add: sweep_step_def)
  show ?thesis unfolding s e by (rule c)
qed

lemma step_failure:
  assumes "nd_shape r = [rows, cols]" and "i < cols" and "\<not> step_ok rsky rows i"
  shows "sweep_step rsky i r = Inl (step_error rsky i)"
proof (cases "rsky_call rsky i")
  case (Inl err)
  then show ?thesis by (simp add: sweep_step_def step_error_def)
next
  case (Inr v)
  with assms(3) have "\<not> (length v = rows \<or> length v = 1)" by (simp add: step_ok_def)
  from set_column_failure [OF assms(1,2) this] Inr show ?thesis
    by (simp add: sweep_step_def step_error_def)
qed

lemma sweep_success:
  assumes "nd_shape r = [rows, cols]" and "length (nd_data r) = rows * cols"
    and "\<forall>i\<in>set idxs. i < cols \<and> step_ok rsky rows i"
  shows "\<exists>r'. sweep rsky idxs (calls, r) = (calls @ idxs, Inr r') \<and> nd_shape r' = [rows, cols] \<and>
      length (nd_data r') = rows * cols \<and>
      (\<forall>k<rows * cols. nd_data r' ! k =
         (if k mod cols \<in> set idxs then entry rsky rows (k mod cols) (k div cols)
          else nd_data r ! k))"
  using assms
proof (induction idxs arbitrary: calls r)
  case Nil
  then show ?case by simp
next
  case (Cons i idxs)
  from Cons.prems(3) have i: "i < cols" "step_ok rsky rows i" by simp_all
  from step_success [OF Cons.prems(1) i] obtain r1 where
    r1: "sweep_step rsky i r = Inr r1" "nd_shape r1 = [rows, cols]"
      "length (nd_data r1) = rows * cols"
      "\<forall>k<rows * cols. nd_data r1 ! k =
         (if k mod cols = i then entry rsky rows i (k div cols) else nd_data r ! k)"
    by blast
  from Cons.prems(3) have rest: "\<forall>j\<in>set idxs. j < cols \<and> step_ok rsky rows j" by simp
  from Cons.IH [OF r1(2) r1(3) rest, of "calls @ [i]"] obtain r2 where
    r2: "sweep rsky idxs (calls @ [i], r1) = ((calls @ [i]) @ idxs, Inr r2)"
      "nd_shape r2 = [rows, cols]" "length (nd_data r2) = rows * cols"
      "\<forall>k<rows * cols. nd_data r2 ! k =
         (if k mod cols \<in> set idxs then entry rsky rows (k mod cols) (k div cols)
          else nd_data r1 ! k)"
    by blast
  have "sweep rsky (i # idxs) (calls, r) = (calls @ i # idxs, Inr r2)"
    using r1(1) r2(1) by simp
  moreover have "\<forall>k<rows * cols. nd_data r2 ! k =
         (if k mod cols \<in> set (i # idxs) then entry rsky rows (k mod cols) (k div cols)
          else nd_data r ! k)"
    using r1(4) r2(4) by auto
  ultimately show ?case using r2(2,3) by blast
qed

lemma sweep_failure:
  assumes "nd_shape r = [rows, cols]" and "length (nd_data r) = rows * cols"
    and "\<forall>j\<in>set pre. j < cols \<and> step_ok rsky rows j"
    and "i < cols" and "\<not> step_ok rsky rows i"
  shows "sweep rsky (pre @ i # post) (calls, r) = (calls @ pre @ [i], Inl (step_error rsky i))"
  using assms
proof (induction pre arbitrary: calls r)
  case Nil
  from step_failure [OF Nil.prems(1,4,5)] show ?case by simp
next
  case (Cons j pre)
  from Cons.prems(3) have j: "j < cols" "step_ok rsky rows j" by simp_all
  from step_success [OF Cons.prems(1) j] obtain r1 where
    r1: "sweep_step rsky j r = Inr r1" "nd_shape r1 = [rows, cols]"
      "length (nd_data r1) = rows * cols"
    by blast
  from Cons.prems(3) have rest: "\<forall>k\<in>set pre. k < cols \<and> step_ok rsky rows k" by simp
  from Cons.IH [OF r1(2) r1(3) rest Cons.prems(4,5), of "calls @ [j]"] r1(1)
  show ?case by simp
qed

section \<open>Runs of the script\<close>

lemma length_t_arr: "length t_arr = 1000"
  by (simp add: t_arr_def length_linspace)

lemma np_empty_shape:
  "nd_shape (np_empty g rows cols) = [rows, cols]"
  "length (nd_data (np_empty g rows cols)) = rows * cols"
  by (simp_all add: np_empty_def)

lemma flat_index:
  fixes row col cols :: nat
  assumes "col < cols"
  shows "(row * cols + col) mod cols = col" and "(row * cols + col) div cols = row"
  using assms by simp_all

lemma flat_index_bound:
  fixes row col rows cols :: nat
  assumes "row < rows" and "col < cols"
  shows "row * cols + col < rows * cols"
proof -
  have "row * cols + col < row * cols + cols" using assms(2) by simp
  also have "\<dots> = Suc row * cols" by simp
  also have "\<dots> \<le> rows * cols" using assms(1) by (intro mult_le_mono1) simp
  finally show ?thesis .
qed

text \<open>A run in which every iteration succeeds.\<close>

lemma sweep_from_empty:
  assumes "\<forall>i\<in>set idxs. i < cols \<and> step_ok rsky rows i"
  shows "\<exists>r'. sweep rsky idxs ([], np_empty g rows cols) = (idxs, Inr r') \<and>
      nd_shape r' = [rows, cols] \<and> length (nd_data r') = rows * cols \<and>
      (\<forall>row<rows. \<forall>col<cols. index2 r' row col =
         (if col \<in> set idxs then entry rsky rows col row else g (row * cols + col)))"
proof -
  from sweep_success [OF np_empty_shape assms, of "[]" g] obtain r' where
    r': "sweep rsky idxs ([], np_empty g rows cols) = (idxs, Inr r')"
      "nd_shape r' = [rows, cols]" "length (nd_data r') = rows * cols"
      "\<forall>k<rows * cols. nd_data r' ! k =
         (if k mod cols \<in> set idxs then entry rsky rows (k mod cols) (k div cols)
          else nd_data (np_empty g rows cols) ! k)"
    by auto
  have "index2 r' row col =
      (if col \<in> set idxs then entry rsky rows col row else g (row * cols + col))"
    if "row < rows" "col < cols" for row col
  proof -
    have b: "row * cols + col < rows * cols" using that by (rule flat_index_bound)
    with r'(4) have "nd_data r' ! (row * cols + col) =
         (if (row * cols + col) mod cols \<in> set idxs
          then entry rsky rows ((row * cols + col) mod cols) ((row * cols + col) div cols)
          else nd_data (np_empty g rows cols) ! (row * cols + col))"
      by blast
    moreover have "nd_data (np_empty g rows cols) ! (row * cols + col) = g (row * cols + col)"
      using b by (simp add: np_empty_def)
    ultimately show ?thesis
      using that(2) r'(2) by (simp add: index2_def flat_index)
  qed
  with r'(1,2,3) show ?thesis by blast
qed

lemma script_success:
  assumes "\<forall>i<720. step_ok rsky 1000 i"
  shows "\<exists>R. script rsky g = ([0..<720], Inr (R, less_scalar R 100)) \<and>
      nd_shape R = [1000, 720] \<and> length (nd_data R) = 1000 * 720 \<and>
      (\<forall>row<1000. \<forall>col<720. index2 R row col = entry rsky 1000 col row)"
proof -
  have "\<forall>i\<in>set [0..<720]. i < 720 \<and> step_ok rsky 1000 i" using assms by simp
  from sweep_from_empty [OF this, of g] obtain R where
    R: "sweep rsky [0..<720] ([], np_empty g 1000 720) = ([0..<720], Inr R)"
      "nd_shape R = [1000, 720]" "length (nd_data R) = 1000 * 720"
      "\<forall>row<1000. \<forall>col<720. index2 R row col =
         (if col \<in> set [0..<720] then entry rsky 1000 col row else g (row * 720 + col))"
    by blast
  have "script rsky g = ([0..<720], Inr (R, less_scalar R 100))"
    using R(1) by (simp add: script_def length_t_arr array_lengths)
  moreover have "\<forall>row<1000. \<forall>col<720. index2 R row col = entry rsky 1000 col row"
    using R(4) by simp
  ultimately show ?thesis using R(2,3) by blast
qed

text \<open>A run that ends at grid point \<open>i\<close>, the first whose iteration fails.\<close>

lemma sweep_range_failure:
  assumes "i < 720" and "\<forall>j<i. step_ok rsky 1000 j" and "\<not> step_ok rsky 1000 i"
  shows "sweep rsky [0..<720] ([], np_empty g 1000 720) = ([0..<Suc i], Inl (step_error rsky i))"
proof -
  have split: "[0..<720] = [0..<i] @ i # [Suc i..<720]"
    using assms(1) by (metis upt_conv_Cons upt_add_eq_append le0 le_add_diff_inverse less_imp_le_nat)
  have pre: "\<forall>j\<in>set [0..<i]. j < 720 \<and> step_ok rsky 1000 j"
    using assms(1,2) by simp
  have "sweep rsky ([0..<i] @ i # [Suc i..<720]) ([], np_empty g 1000 720) =
      ([] @ [0..<i] @ [i], Inl (step_error rsky i))"
    by (rule sweep_failure [OF np_empty_shape pre assms(1,3)])
  then show ?thesis
    by (simp add: split [symmetric])
qed

lemma script_failure:
  assumes "i < 720" and "\<forall>j<i. step_ok rsky 1000 j" and "\<not> step_ok rsky 1000 i"
  shows "script rsky g = ([0..<Suc i], Inl (step_error rsky i))"
  using sweep_range_failure [OF assms, of g]
  by (simp add: script_def length_t_arr array_lengths)

text \<open>Every run is one of the two.\<close>

lemma first_failure:
  fixes n :: nat and P :: "nat \<Rightarrow> bool"
  assumes "\<not> (\<forall>i<n. P i)"
  shows "\<exists>i<n. \<not> P i \<and> (\<forall>j<i. P j)"
proof -
  from assms obtain k where k: "k < n" "\<not> P k" by blast
  define i where "i = (LEAST k. k < n \<and> \<not> P k)"
  have "i < n \<and> \<not> P i" unfolding i_def using k by (intro LeastI [of "\<lambda>k. k < n \<and> \<not> P k" k]) simp
  moreover have "P j" if "j < i" for j
  proof (rule ccontr)
    assume "\<not> P j"
    moreover have "j < n" using that \<open>i < n \<and> \<not> P i\<close> by simp
    ultimately have "i \<le> j" unfolding i_def by (intro Least_le) simp
    with that show False by simp
  qed
  ultimately show ?thesis by blast
qed

text \<open>Two tables of one shape with the same entries are the same table.\<close>

lemma table_eq:
  fixes r1 r2 :: "'a ndarray"
  assumes "nd_shape r1 = [rows, cols]" and "nd_shape r2 = [rows, cols]"
    and "length (nd_data r1) = rows * cols" and "length (nd_data r2) = rows * cols"
    and "\<forall>row<rows. \<forall>col<cols. index2 r1 row col = index2 r2 row col"
  shows "r1 = r2"
proof -
  have "nd_data r1 = nd_data r2"
  proof (rule nth_equalityI)
    show "length (nd_data r1) = length (nd_data r2)" using assms(3,4) by simp
  next
    fix k assume "k < length (nd_data r1)"
    then have k: "k < rows * cols" using assms(3) by simp
    then have c: "0 < cols" by (cases cols) auto
    then have col: "k mod cols < cols" by simp
    have row: "k div cols < rows" using k by (simp add: less_mult_imp_div_less)
    have "index2 r1 (k div cols) (k mod cols) = index2 r2 (k div cols) (k mod cols)"
      using assms(5) row col by blast
    then show "nd_data r1 ! k = nd_data r2 ! k"
      using assms(1,2) by (simp add: index2_def)
  qed
  with assms(1,2) show ?thesis by simp
qed

section \<open>The result table\<close>

lemma t_arr_nth:
  assumes "k < 1000"
  shows "t_arr ! k = - 100 + real k * (200 / 999)"
proof (cases "k = 999")
  case True
  then show ?thesis by (simp add: t_arr_def linspace_def Let_def)
next
  case False
  with assms show ?thesis by (simp add: t_arr_def linspace_def Let_def)
qed

lemma step_ok_full:
  assumes "rsky_call rsky i = Inr v" and "length v = rows"
  shows "step_ok rsky rows i" and "entry rsky rows i row = v ! row"
  using assms by (simp_all add: step_ok_def entry_def)

lemma rsky_pointwise_call:
  "rsky_call (rsky_pointwise f) i =
     Inr (map (\<lambda>x. f x (t0_arr ! i) (period_arr ! i) (a_arr ! i) (incl_arr ! i) (e_arr ! i)
       (omega_arr ! i)) t_arr)"
  by (simp add: rsky_call_def rsky_pointwise_def)

text \<open>
  C2. When the routine returns an array of 1000 values at every grid point, the script
  ends with a table of shape (1000, 720) whose entry at (row, col) is the row-th value
  the routine returns for the time samples and the parameters of grid point col, passed
  in the order t0, period, a, incl, e, omega and followed by 1 and 1. The time samples
  are 1000 evenly spaced numbers from -100 to 100.
\<close>

theorem result_table:
  assumes "\<forall>col<720. \<exists>v. rsky_call rsky col = Inr v \<and> length v = 1000"
  shows "\<exists>R M. snd (script rsky g) = Inr (R, M) \<and> nd_shape R = [1000, 720] \<and>
      length (nd_data R) = 1000 * 720 \<and>
      (\<forall>row<1000. \<forall>col<720. \<exists>v.
         rsky t_arr (t0_arr ! col) (period_arr ! col) (a_arr ! col) (incl_arr ! col)
           (e_arr ! col) (omega_arr ! col) 1 1 = Inr v \<and>
         index2 R row col = v ! row) \<and>
      length t_arr = 1000 \<and> (\<forall>k<1000. t_arr ! k = - 100 + real k * (200 / 999))"
proof -
  have ok: "\<forall>i<720. step_ok rsky 1000 i"
    using assms step_ok_full(1) by blast
  from script_success [OF ok, of g] obtain R where
    R: "script rsky g = ([0..<720], Inr (R, less_scalar R 100))"
      "nd_shape R = [1000, 720]" "length (nd_data R) = 1000 * 720"
      "\<forall>row<1000. \<forall>col<720. index2 R row col = entry rsky 1000 col row"
    by blast
  have "\<exists>v. rsky t_arr (t0_arr ! col) (period_arr ! col) (a_arr ! col) (incl_arr ! col)
           (e_arr ! col) (omega_arr ! col) 1 1 = Inr v \<and> index2 R row col = v ! row"
    if "row < 1000" "col < 720" for row col
  proof -
    from assms that(2) obtain v where v: "rsky_call rsky col = Inr v" "length v = 1000"
      by blast
    have "index2 R row col = v ! row"
      using R(4) that step_ok_full(2) [OF v] by simp
    with v(1) show ?thesis by (simp add: rsky_call_def)
  qed
  moreover have "snd (script rsky g) = Inr (R, less_scalar R 100)"
    using R(1) by simp
  ultimately show ?thesis
    using R(2,3) length_t_arr t_arr_nth by blast
qed

theorem result_table_witness:
  "\<exists>R M. snd (script (rsky_pointwise toy_separation) flat_position) = Inr (R, M) \<and>
     nd_shape R = [1000, 720] \<and>
     index2 R 3 5 =
       toy_separation (t_arr ! 3) (t0_arr ! 5) (period_arr ! 5) (a_arr ! 5) (incl_arr ! 5)
         (e_arr ! 5) (omega_arr ! 5)"
proof -
  have "\<forall>col<720. \<exists>v. rsky_call (rsky_pointwise toy_separation) col = Inr v \<and> length v = 1000"
    by (simp add: rsky_pointwise_call length_t_arr)
  from result_table [OF this, of flat_position] obtain R M where
    R: "snd (script (rsky_pointwise toy_separation) flat_position) = Inr (R, M)"
      "nd_shape R = [1000, 720]"
      "\<forall>row<1000. \<forall>col<720. \<exists>v.
         rsky_pointwise toy_separation t_arr (t0_arr ! col) (period_arr ! col) (a_arr ! col)
           (incl_arr ! col) (e_arr ! col) (omega_arr ! col) 1 1 = Inr v \<and>
         index2 R row col = v ! row"
    by blast
  have "(3::nat) < 1000" "(5::nat) < 720" by simp_all
  with R(3) obtain v where
    v: "rsky_pointwise toy_separation t_arr (t0_arr ! 5) (period_arr ! 5) (a_arr ! 5)
           (incl_arr ! 5) (e_arr ! 5) (omega_arr ! 5) 1 1 = Inr v"
      "index2 R 3 5 = v ! 3"
    by blast
  from v have "index2 R 3 5 =
       toy_separation (t_arr ! 3) (t0_arr ! 5) (period_arr ! 5) (a_arr ! 5) (incl_arr ! 5)
         (e_arr ! 5) (omega_arr ! 5)"
    by (auto simp: rsky_pointwise_def length_t_arr)
  with R(1,2) show ?thesis by blast
qed

section \<open>Mask and determinism\<close>

text \<open>Every run ends in one of two ways.\<close>

lemma script_cases:
  obtains (success) R where "\<forall>i<720. step_ok rsky 1000 i"
      "script rsky g = ([0..<720], Inr (R, less_scalar R 100))"
      "nd_shape R = [1000, 720]" "length (nd_data R) = 1000 * 720"
      "\<forall>row<1000. \<forall>col<720. index2 R row col = entry rsky 1000 col row"
  | (failure) i where "i < 720" "\<forall>j<i. step_ok rsky 1000 j" "\<not> step_ok rsky 1000 i"
      "script rsky g = ([0..<Suc i], Inl (step_error rsky i))"
proof (cases "\<forall>i<720. step_ok rsky 1000 i")
  case True
  from script_success [OF True, of g] True show ?thesis
    using success by blast
next
  case False
  from first_failure [OF False] obtain i where
    i: "i < 720" "\<not> step_ok rsky 1000 i" "\<forall>j<i. step_ok rsky 1000 j"
    by blast
  from script_failure [OF i(1,3,2), of g] i show ?thesis
    using failure by blast
qed

lemma less_scalar_index2:
  assumes "nd_shape r = [rows, cols]" and "length (nd_data r) = rows * cols"
    and "row < rows" and "col < cols"
  shows "index2 (less_scalar r c) row col = (index2 r row col < c)"
proof -
  have "row * cols + col < length (nd_data r)"
    using assms flat_index_bound by simp
  then show ?thesis using assms(1) by (simp add: index2_def less_scalar_def)
qed

text \<open>
  C3. When the script produces a table and a mask, the mask has the shape of the table,
  and its entry at (row, col) is true exactly when the table's entry is strictly below
  100; an entry equal to 100 gives false.
\<close>

theorem mask_threshold:
  assumes "snd (script rsky g) = Inr (R, M)"
  shows "nd_shape M = nd_shape R \<and> nd_shape R = [1000, 720] \<and>
     (\<forall>row<1000. \<forall>col<720. index2 M row col = (index2 R row col < 100)) \<and>
     (\<forall>row<1000. \<forall>col<720. index2 R row col = 100 \<longrightarrow> \<not> index2 M row col)"
proof (cases rule: script_cases [of rsky g])
  case (success R')
  with assms have eq: "R' = R" "M = less_scalar R 100" by auto
  have s: "nd_shape R = [1000, 720]" "length (nd_data R) = 1000 * 720"
    using success(3,4) eq(1) by simp_all
  have m: "index2 M row col = (index2 R row col < 100)" if "row < 1000" "col < 720" for row col
    unfolding eq(2) using s that by (rule less_scalar_index2)
  have "nd_shape M = nd_shape R" by (simp add: eq(2) less_scalar_def)
  with s(1) m show ?thesis by simp
next
  case (failure i)
  with assms show ?thesis by simp
qed

theorem mask_threshold_witness:
  "\<exists>R M. snd (script (rsky_pointwise (\<lambda>x tc per sma inc ecc w. 100)) flat_position) = Inr (R, M) \<and>
     nd_shape M = [1000, 720] \<and> index2 R 3 5 = 100 \<and> \<not> index2 M 3 5"
proof -
  let ?rsky = "rsky_pointwise (\<lambda>x tc per sma inc ecc w. 100)"
  have ok: "\<forall>i<720. step_ok ?rsky 1000 i"
    by (simp add: step_ok_def rsky_pointwise_call length_t_arr)
  from script_success [OF ok, of flat_position] obtain R where
    R: "script ?rsky flat_position = ([0..<720], Inr (R, less_scalar R 100))"
      "\<forall>row<1000. \<forall>col<720. index2 R row col = entry ?rsky 1000 col row"
    by blast
  have run: "snd (script ?rsky flat_position) = Inr (R, less_scalar R 100)"
    using R(1) by simp
  have "index2 R 3 5 = entry ?rsky 1000 5 3" using R(2) by simp
  then have v: "index2 R 3 5 = 100"
    by (simp add: entry_def rsky_pointwise_call length_t_arr)
  from mask_threshold [OF run] have
    "nd_shape (less_scalar R 100) = [1000, 720]"
    "\<forall>row<1000. \<forall>col<720. index2 R row col = 100 \<longrightarrow> \<not> index2 (less_scalar R 100) row col"
    by simp_all
  with v have "nd_shape (less_scalar R 100) = [1000, 720] \<and> \<not> index2 (less_scalar R 100) 3 5"
    by simp
  with run v show ?thesis by blast
qed

text \<open>
  C10. The outcome of the script, that is the calls it makes and either the error or the
  table with its mask, is a function of the routine alone: two runs with the same
  routine agree, whatever the memory that \<^verbatim>\<open>np.empty\<close> hands out contains.
\<close>

theorem script_deterministic:
  "script rsky g1 = script rsky g2"
proof (cases rule: script_cases [of rsky g1])
  case (success R1)
  from script_success [OF success(1), of g2] obtain R2 where
    R2: "script rsky g2 = ([0..<720], Inr (R2, less_scalar R2 100))"
      "nd_shape R2 = [1000, 720]" "length (nd_data R2) = 1000 * 720"
      "\<forall>row<1000. \<forall>col<720. index2 R2 row col = entry rsky 1000 col row"
    by blast
  have "R1 = R2"
    using success(3) R2(2) success(4) R2(3)
  proof (rule table_eq)
    show "\<forall>row<1000. \<forall>col<720. index2 R1 row col = index2 R2 row col"
      using success(5) R2(4) by simp
  qed
  with success(2) R2(1) show ?thesis by simp
next
  case (failure i)
  from script_failure [OF failure(1,2,3), of g2] failure(4) show ?thesis by simp
qed

theorem script_deterministic_witness:
  "script (rsky_pointwise toy_separation) flat_position =
   script (rsky_pointwise toy_separation) (\<lambda>k. 0)"
  by (rule script_deterministic)

text \<open>
  C7. When the routine raises at grid point \<open>i\<close>, the script ends with an error and
  produces neither table nor mask. When the run reaches grid point \<open>i\<close>, the error is
  the one raised there and the routine has been called for the grid points 0 to \<open>i\<close>,
  once each and for no other: nothing is retried and no later column is computed.
\<close>

theorem sweep_fails_fast:
  assumes "i < 720" and "rsky_call rsky i = Inl err"
  shows "(\<exists>e. snd (script rsky g) = Inl e) \<and>
     (i \<in> set (fst (script rsky g)) \<longrightarrow> script rsky g = ([0..<Suc i], Inl err))"
proof (cases rule: script_cases [of rsky g])
  case (success R)
  from success(1) assms(1) have "step_ok rsky 1000 i" by blast
  with assms(2) show ?thesis by (simp add: step_ok_def)
next
  case (failure k)
  have bad: "\<not> step_ok rsky 1000 i" using assms(2) by (simp add: step_ok_def)
  have "script rsky g = ([0..<Suc i], Inl err)" if "i \<in> set (fst (script rsky g))"
  proof -
    from that failure(4) have "i \<le> k" by auto
    moreover have "\<not> i < k" using failure(2) bad by blast
    ultimately have "k = i" by simp
    moreover have "step_error rsky i = err" using assms(2) by (simp add: step_error_def)
    ultimately show ?thesis using failure(4) by simp
  qed
  with failure(4) show ?thesis by simp
qed

lemma e_arr_below:
  assumes "j < 48"
  shows "e_arr ! j < 9 / 10"
proof -
  have "j div 12 < 4" using assms by simp
  then have k: "j div 12 mod 5 = j div 12" by simp
  have "e_arr ! j = e_axis ! (j div 12)"
    using assms k by (simp add: array_nth)
  moreover from \<open>j div 12 < 4\<close> consider "j div 12 = 0" | "j div 12 = 1" | "j div 12 = 2" | "j div 12 = 3"
    by linarith
  then have "e_axis ! (j div 12) < 9 / 10"
    by cases (simp_all add: e_axis_values)
  ultimately show ?thesis by simp
qed

lemma e_arr_48: "e_arr ! 48 = 9 / 10"
proof -
  have "e_arr ! 48 = e_axis ! 4" by (simp add: array_nth)
  then show ?thesis by (simp add: e_axis_values)
qed

theorem sweep_fails_fast_witness:
  "script (rsky_bounded_ecc toy_separation) flat_position =
     ([0..<Suc 48], Inl (Raised ''eccentricity''))"
proof -
  let ?rsky = "rsky_bounded_ecc toy_separation"
  have call: "rsky_call ?rsky 48 = Inl (Raised ''eccentricity'')"
    by (simp add: rsky_call_def rsky_bounded_ecc_def e_arr_48)
  have before: "\<forall>j<48. step_ok ?rsky 1000 j"
  proof (intro allI impI)
    fix j :: nat assume "j < 48"
    then have "\<not> 9 / 10 \<le> e_arr ! j" using e_arr_below by (simp add: not_le)
    then show "step_ok ?rsky 1000 j"
      by (simp add: step_ok_def rsky_call_def rsky_bounded_ecc_def length_t_arr)
  qed
  have at: "\<not> step_ok ?rsky 1000 48" using call by (simp add: step_ok_def)
  have lt: "(48::nat) < 720" by simp
  have "script ?rsky flat_position = ([0..<Suc 48], Inl (step_error ?rsky 48))"
    using lt before at by (rule script_failure)
  then have reached: "48 \<in> set (fst (script ?rsky flat_position))" by simp
  from sweep_fails_fast [OF lt call, of flat_position] reached show ?thesis by blast
qed

section \<open>Independence of the columns\<close>

lemma sweep_step_frame:
  assumes "nd_shape r = [rows, cols]" and "sweep_step rsky i r = Inr r'"
  shows "nd_shape r' = [rows, cols] \<and>
     (\<forall>row<rows. \<forall>col<cols. col \<noteq> i \<longrightarrow> index2 r' row col = index2 r row col)"
proof -
  from assms(2) obtain v where v: "rsky_call rsky i = Inr v" "set_column r i v = Inr r'"
    by (auto simp: sweep_step_def split: sum.splits)
  from v(2) assms(1) have i: "i < cols" and len: "length v = rows \<or> length v = 1"
    by (auto simp: set_column_def Let_def split: if_splits)
  from set_column_success [OF assms(1) i len] v(2) have
    r': "nd_shape r' = [rows, cols]"
      "\<forall>k<rows * cols. nd_data r' ! k =
         (if k mod cols = i then (if length v = rows then v ! (k div cols) else v ! 0)
          else nd_data r ! k)"
    by auto
  have "index2 r' row col = index2 r row col" if "row < rows" "col < cols" "col \<noteq> i" for row col
  proof -
    have "row * cols + col < rows * cols" using that(1,2) by (rule flat_index_bound)
    with r'(2) that(2,3) have "nd_data r' ! (row * cols + col) = nd_data r ! (row * cols + col)"
      by (simp add: flat_index)
    then show ?thesis using r'(1) assms(1) by (simp add: index2_def)
  qed
  with r'(1) show ?thesis by blast
qed

lemma sweep_order:
  assumes "mset order = mset [0..<720]"
    and "snd (sweep rsky [0..<720] ([], np_empty g 1000 720)) = Inr R"
  shows "snd (sweep rsky order ([], np_empty g 1000 720)) = Inr R"
proof -
  have ok: "\<forall>i<720. step_ok rsky 1000 i"
  proof (rule ccontr)
    assume "\<not> (\<forall>i<720. step_ok rsky 1000 i)"
    from first_failure [OF this] obtain i where
      "i < 720" "\<not> step_ok rsky 1000 i" "\<forall>j<i. step_ok rsky 1000 j"
      by blast
    then have "sweep rsky [0..<720] ([], np_empty g 1000 720) =
        ([0..<Suc i], Inl (step_error rsky i))"
      by (intro sweep_range_failure)
    with assms(2) show False by simp
  qed
  have s: "set order = set [0..<720]" using assms(1) by (rule mset_eq_setD)
  have a: "\<forall>i\<in>set [0..<720]. i < 720 \<and> step_ok rsky 1000 i" using ok by simp
  then have b: "\<forall>i\<in>set order. i < 720 \<and> step_ok rsky 1000 i" unfolding s .
  from sweep_from_empty [OF a, of g] assms(2) have
    R: "nd_shape R = [1000, 720]" "length (nd_data R) = 1000 * 720"
      "\<forall>row<1000. \<forall>col<720. index2 R row col =
         (if col \<in> set [0..<720] then entry rsky 1000 col row else g (row * 720 + col))"
    by auto
  from sweep_from_empty [OF b, of g] obtain R' where
    R': "sweep rsky order ([], np_empty g 1000 720) = (order, Inr R')"
      "nd_shape R' = [1000, 720]" "length (nd_data R') = 1000 * 720"
      "\<forall>row<1000. \<forall>col<720. index2 R' row col =
         (if col \<in> set order then entry rsky 1000 col row else g (row * 720 + col))"
    by blast
  have "R' = R"
    using R'(2) R(1) R'(3) R(2)
  proof (rule table_eq)
    show "\<forall>row<1000. \<forall>col<720. index2 R' row col = index2 R row col"
      using R(3) R'(4) unfolding s by simp
  qed
  with R'(1) show ?thesis by simp
qed

text \<open>
  C9. An iteration of the loop that succeeds keeps the shape of the table and changes no
  entry outside column \<open>i\<close>. Consequently, when the loop in the script's order ends with a
  table, the loop run over the 720 grid points in any other order ends with the same
  table.
\<close>

theorem columns_independent:
  "(\<forall>r r' rows cols. nd_shape r = [rows, cols] \<and> sweep_step rsky i r = Inr r' \<longrightarrow>
      nd_shape r' = [rows, cols] \<and>
      (\<forall>row<rows. \<forall>col<cols. col \<noteq> i \<longrightarrow> index2 r' row col = index2 r row col)) \<and>
   (\<forall>order R.
      mset order = mset [0..<length t0_arr] \<and>
      snd (sweep rsky [0..<length t0_arr] ([], np_empty g (length t_arr) (length t0_arr))) = Inr R \<longrightarrow>
      snd (sweep rsky order ([], np_empty g (length t_arr) (length t0_arr))) = Inr R)"
proof (intro conjI allI impI)
  fix r r' :: "real ndarray" and rows cols
  assume a: "nd_shape r = [rows, cols] \<and> sweep_step rsky i r = Inr r'"
  then show "nd_shape r' = [rows, cols]" using sweep_step_frame by blast
  fix row col assume "row < rows" "col < cols" "col \<noteq> i"
  with a show "index2 r' row col = index2 r row col" using sweep_step_frame by blast
next
  fix order R
  assume "mset order = mset [0..<length t0_arr] \<and>
      snd (sweep rsky [0..<length t0_arr] ([], np_empty g (length t_arr) (length t0_arr))) = Inr R"
  then show "snd (sweep rsky order ([], np_empty g (length t_arr) (length t0_arr))) = Inr R"
    using sweep_order [of order rsky g R] by (simp add: array_lengths length_t_arr)
qed

theorem columns_independent_witness:
  "(\<exists>r'. sweep_step (rsky_pointwise toy_separation) 5 (np_empty flat_position 1000 720) = Inr r' \<and>
      index2 r' 3 4 = index2 (np_empty flat_position 1000 720) 3 4) \<and>
   (\<exists>R. snd (sweep (rsky_pointwise toy_separation) [0..<length t0_arr]
            ([], np_empty flat_position (length t_arr) (length t0_arr))) = Inr R \<and>
      snd (sweep (rsky_pointwise toy_separation) (rev [0..<length t0_arr])
            ([], np_empty flat_position (length t_arr) (length t0_arr))) = Inr R)"
proof -
  let ?rsky = "rsky_pointwise toy_separation"
  let ?r = "np_empty flat_position 1000 720"
  note indep = columns_independent [of ?rsky 5 flat_position]
  have ok: "\<forall>i<720. step_ok ?rsky 1000 i"
    by (simp add: step_ok_def rsky_pointwise_call length_t_arr)
  have shape: "nd_shape ?r = [1000, 720]" by (rule np_empty_shape)
  have "(5::nat) < 720" by simp
  with ok have "step_ok ?rsky 1000 5" by blast
  from step_success [OF shape \<open>5 < 720\<close> this] obtain r' where
    r': "sweep_step ?rsky 5 ?r = Inr r'" by blast
  from indep shape r' have
    "\<forall>row<1000. \<forall>col<720. col \<noteq> 5 \<longrightarrow> index2 r' row col = index2 ?r row col"
    by blast
  then have "index2 r' 3 4 = index2 ?r 3 4" by simp
  with r' have first: "\<exists>r'. sweep_step ?rsky 5 ?r = Inr r' \<and> index2 r' 3 4 = index2 ?r 3 4"
    by blast
  from script_success [OF ok, of flat_position] obtain R where
    "script ?rsky flat_position = ([0..<720], Inr (R, less_scalar R 100))" by blast
  then have run: "snd (sweep ?rsky [0..<length t0_arr]
      ([], np_empty flat_position (length t_arr) (length t0_arr))) = Inr R"
    by (auto simp: script_def split: prod.splits sum.splits)
  have "snd (sweep ?rsky (rev [0..<length t0_arr])
      ([], np_empty flat_position (length t_arr) (length t0_arr))) = Inr R"
  proof -
    have "mset (rev [0..<length t0_arr]) = mset [0..<length t0_arr]" by simp
    with indep run show ?thesis by blast
  qed
  with run first show ?thesis by blast
qed

section \<open>The axes\<close>

lemma linspace_unit: "linspace 0 1 5 = [0, 1 / 4, 1 / 2, 3 / 4, 1]"
  by (simp add: linspace_def Let_def upt_small)

lemma incl_axis_bounds: "\<forall>x\<in>set incl_axis. 0 < x \<and> x \<le> pi / 2"
proof -
  have "arccos (1 / 4) \<le> pi / 2" "arccos (3 / 4) \<le> pi / 2"
    by (rule arccos_le_pi2; simp)+
  moreover have "0 < arccos (1 / 4)" "0 < arccos (1 / 2)" "0 < arccos (0::real)"
    using incl_axis_order by linarith+
  ultimately show ?thesis
    using incl_axis_order(4) pi_gt_zero by (simp add: incl_axis_values)
qed

text \<open>
  C4. The inclination axis has exactly four values: the arccosines of the first four of
  the five evenly spaced numbers 0, 1/4, 1/2, 3/4, 1. The number left out is the last,
  whose arccosine is 0. Every inclination, on the axis and in the flattened array, lies
  in the interval (0, pi/2].
\<close>

theorem inclination_axis:
  "length incl_axis = 4 \<and>
   linspace 0 1 5 = [0, 1 / 4, 1 / 2, 3 / 4, 1] \<and>
   incl_axis = map arccos (take 4 (linspace 0 1 5)) \<and>
   arccos (last (linspace 0 1 5)) = 0 \<and>
   (\<forall>x\<in>set incl_axis. 0 < x \<and> x \<le> pi / 2) \<and>
   (\<forall>i<720. 0 < incl_arr ! i \<and> incl_arr ! i \<le> pi / 2)"
proof -
  have a: "incl_axis = map arccos (take 4 (linspace 0 1 5))"
    by (simp add: incl_axis_def linspace_unit)
  have b: "arccos (last (linspace 0 1 5)) = 0"
    by (simp add: linspace_unit)
  have c: "0 < incl_arr ! i \<and> incl_arr ! i \<le> pi / 2" if "i < 720" for i
  proof -
    have "incl_arr ! i = incl_axis ! (i mod 4)" using that by (rule array_nth)
    moreover have "incl_axis ! (i mod 4) \<in> set incl_axis"
      by (rule nth_mem) (simp add: axis_lengths)
    ultimately show ?thesis using incl_axis_bounds by simp
  qed
  from a b c incl_axis_bounds show ?thesis
    by (simp add: axis_lengths linspace_unit)
qed

theorem inclination_axis_witness:
  "incl_axis ! 3 = arccos (3 / 4) \<and> 0 < incl_axis ! 3 \<and> incl_axis ! 3 \<le> pi / 2 \<and>
   0 < incl_arr ! 719 \<and> incl_arr ! 719 \<le> pi / 2"
proof -
  have m: "incl_axis ! 3 \<in> set incl_axis" by (rule nth_mem) (simp add: axis_lengths)
  have v: "incl_axis ! 3 = arccos (3 / 4)" by (simp add: incl_axis_values)
  have k: "(719::nat) < 720" by simp
  from inclination_axis have
    "\<forall>x\<in>set incl_axis. 0 < x \<and> x \<le> pi / 2"
    "\<forall>i<720. 0 < incl_arr ! i \<and> incl_arr ! i \<le> pi / 2"
    by blast+
  with m k have "0 < incl_axis ! 3 \<and> incl_axis ! 3 \<le> pi / 2 \<and>
      0 < incl_arr ! 719 \<and> incl_arr ! 719 \<le> pi / 2"
    by blast
  with v show ?thesis by simp
qed

text \<open>
  The bounds of the other five axes, in exact arithmetic. The period axis is
  \<open>exp\<close> of evenly spaced logarithms; that \<open>exp (ln 5) = 5\<close> and \<open>exp (ln 50) = 50\<close> is a
  fact about real numbers, not about the float64 functions the script calls.
\<close>

lemma axis_bounds_exact:
  "\<forall>x\<in>set t0_axis. - 5 \<le> x \<and> x \<le> 5"
  "\<forall>x\<in>set period_axis. 5 \<le> x \<and> x \<le> 50"
  "period_axis = map exp [ln 5, ln 5 + (ln 50 - ln 5) / 2, ln 50]"
  "\<forall>x\<in>set a_axis. 50 \<le> x \<and> x \<le> 100"
  "\<forall>x\<in>set e_axis. 0 \<le> x \<and> x \<le> 9 / 10"
  "\<forall>x\<in>set omega_axis. - pi \<le> x \<and> x \<le> pi"
proof -
  show "\<forall>x\<in>set t0_axis. - 5 \<le> x \<and> x \<le> 5" by (simp add: t0_axis_values)
  show "\<forall>x\<in>set period_axis. 5 \<le> x \<and> x \<le> 50"
    using period_mid_bounds by (simp add: period_axis_values)
  show "period_axis = map exp [ln 5, ln 5 + (ln 50 - ln 5) / 2, ln 50]"
    by (simp add: period_axis_values field_simps)
  show "\<forall>x\<in>set a_axis. 50 \<le> x \<and> x \<le> 100" by (simp add: a_axis_values)
  show "\<forall>x\<in>set e_axis. 0 \<le> x \<and> x \<le> 9 / 10" by (simp add: e_axis_values)
  show "\<forall>x\<in>set omega_axis. - pi \<le> x \<and> x \<le> pi"
    using pi_gt_zero by (simp add: omega_axis_values)
qed

section \<open>The period axis in float64\<close>




























end
